theory Spec2Isabelle
  imports Main "HOL-Library.Word"
begin

section \<open>The chunked byte output stream (bytes_ostream.hh)\<close>

text \<open>
  \<open>value_type\<close> is one byte. \<open>size_type\<close> is \<open>bytes::size_type\<close>, declared in
  \<open>types.hh\<close>; it is the 32-bit unsigned type the blob format uses, so every
  \<open>offset\<close> and \<open>_size\<close> computation below wraps modulo \<open>2 ^ 32\<close>. Quantities of type
  \<open>size_t\<close> (the length of a \<open>bytes_view\<close>, the argument of \<open>malloc\<close>) are natural
  numbers.

  A chunk is a header followed by its payload storage in one \<open>malloc\<close> block. The
  payload is a list of cells, one per byte of the block from \<open>data\<close> on; a cell
  is \<open>None\<close> while its value is indeterminate (fresh from \<open>malloc\<close>). The chain of
  uniquely owned chunks is a list, \<open>_current\<close> is the position of a chunk in it.
  A pointer into payload storage is a chunk position and a byte index.
\<close>

type_synonym byte = "8 word"
type_synonym size_type = "32 word"
type_synonym cell = "byte option"
type_synonym ptr = "nat \<times> nat"

datatype error = Bad_alloc | Null_deref | Out_of_bounds | Assertion_failed

record chunk =
  offset :: size_type
  data :: "cell list"

record bytes_ostream =
  m_begin :: "chunk list"
  m_current :: "nat option"
  m_size :: size_type

definition bindE :: "error + 'a \<Rightarrow> ('a \<Rightarrow> error + 'b) \<Rightarrow> error + 'b" where
  "bindE m f = (case m of Inl e \<Rightarrow> Inl e | Inr x \<Rightarrow> f x)"

text \<open>
  The layout of \<open>struct chunk\<close>: the owning pointer \<open>next\<close> takes bytes 0 to 7, \<open>offset\<close>
  bytes 8 to 11, and the zero-length array \<open>data\<close> begins at byte 12. The alignment of
  the pointer rounds \<open>sizeof(chunk)\<close> up to 16. A block of \<open>n\<close> bytes therefore holds
  \<open>n - 12\<close> bytes from \<open>data\<close> on, four more than \<open>n - sizeof(chunk)\<close>.
\<close>

definition sizeof_chunk :: nat where
  "sizeof_chunk = 16"

definition data_start :: nat where
  "data_start = 12"

definition chunk_size :: size_type where
  "chunk_size = 512"

definition usable_chunk_size :: size_type where
  "usable_chunk_size = chunk_size - of_nat sizeof_chunk"

definition empty_stream :: bytes_ostream where
  "empty_stream = \<lparr>m_begin = [], m_current = None, m_size = 0\<rparr>"

text \<open>Dereferencing \<open>_current\<close>.\<close>

definition deref :: "bytes_ostream \<Rightarrow> error + (nat \<times> chunk)" where
  "deref s =
     (case m_current s of
        None \<Rightarrow> Inl Null_deref
      | Some i \<Rightarrow> if i < length (m_begin s) then Inr (i, m_begin s ! i) else Inl Out_of_bounds)"

definition current_space_left :: "bytes_ostream \<Rightarrow> error + size_type" where
  "current_space_left s =
     (if m_current s = None then Inr 0
      else bindE (deref s) (\<lambda>(i, c). Inr (usable_chunk_size - offset c)))"

text \<open>
  \<open>memcpy\<close> and \<open>copy_n\<close> into payload storage, and \<open>copy_n\<close> out of it. An access
  outside the storage of the chunk has no defined behaviour; it is the error
  \<open>Out_of_bounds\<close>.
\<close>

definition store :: "ptr \<Rightarrow> cell list \<Rightarrow> bytes_ostream \<Rightarrow> error + bytes_ostream" where
  "store p cs s =
     (case p of (i, off) \<Rightarrow>
        if i < length (m_begin s) \<and> off + length cs \<le> length (data (m_begin s ! i))
        then let c = m_begin s ! i;
                 d = take off (data c) @ cs @ drop (off + length cs) (data c)
             in Inr (s\<lparr>m_begin := (m_begin s)[i := c\<lparr>data := d\<rparr>]\<rparr>)
        else Inl Out_of_bounds)"

definition load :: "chunk \<Rightarrow> nat \<Rightarrow> error + cell list" where
  "load c n = (if n \<le> length (data c) then Inr (take n (data c)) else Inl Out_of_bounds)"

text \<open>
  \<open>alloc\<close>. The parameter \<open>avail\<close> tells whether \<open>malloc\<close> satisfies a request of
  the given number of bytes. \<open>size + sizeof(chunk)\<close> is computed in \<open>size_t\<close>. The
  payload storage of a new chunk is what the block holds from \<open>data\<close> on. The
  assignment to \<open>_current->next\<close> makes the new chunk the only successor of the
  current one.
\<close>

definition alloc :: "(nat \<Rightarrow> bool) \<Rightarrow> size_type \<Rightarrow> bytes_ostream \<Rightarrow> error + (ptr \<times> bytes_ostream)" where
  "alloc avail sz s =
     bindE (current_space_left s) (\<lambda>left.
       if sz \<le> left then
         bindE (deref s) (\<lambda>(i, c).
           Inr ((i, unat (offset c)),
                s\<lparr>m_begin := (m_begin s)[i := c\<lparr>offset := offset c + sz\<rparr>],
                  m_size := m_size s + sz\<rparr>))
       else
         let alloc_size = (if sz \<le> usable_chunk_size then unat chunk_size
                           else unat sz + sizeof_chunk)
         in if \<not> avail alloc_size then Inl Bad_alloc
            else
              let new_chunk = \<lparr>offset = sz, data = replicate (alloc_size - data_start) None\<rparr>
              in if m_current s = None
                 then Inr ((0, 0),
                           s\<lparr>m_begin := [new_chunk], m_current := Some 0,
                             m_size := m_size s + sz\<rparr>)
                 else bindE (deref s) (\<lambda>(i, c).
                        Inr ((Suc i, 0),
                             s\<lparr>m_begin := take (Suc i) (m_begin s) @ [new_chunk],
                               m_current := Some (Suc i),
                               m_size := m_size s + sz\<rparr>)))"

text \<open>\<open>net::hton\<close> followed by the unaligned store: the bytes of a value, most significant first.\<close>

definition hton :: "'a::len word \<Rightarrow> byte list" where
  "hton v = map (\<lambda>i. ucast (drop_bit (8 * i) v)) (rev [0 ..< LENGTH('a) div 8])"

definition write_T :: "(nat \<Rightarrow> bool) \<Rightarrow> 'a::len word \<Rightarrow> bytes_ostream \<Rightarrow> error + bytes_ostream" where
  "write_T avail val s =
     bindE (alloc avail (of_nat (LENGTH('a) div 8)) s) (\<lambda>(p, s1).
       store p (map Some (hton val)) s1)"

definition write_place_holder :: "(nat \<Rightarrow> bool) \<Rightarrow> nat \<Rightarrow> bytes_ostream \<Rightarrow> error + (ptr \<times> bytes_ostream)" where
  "write_place_holder avail sizeof_T s = alloc avail (of_nat sizeof_T) s"

definition set_place_holder :: "ptr \<Rightarrow> 'a::len word \<Rightarrow> bytes_ostream \<Rightarrow> error + bytes_ostream" where
  "set_place_holder ph val s = store ph (map Some (hton val)) s"

text \<open>
  \<open>write(bytes_view)\<close>. \<open>v.size()\<close> is a \<open>size_t\<close>; it is compared with
  \<open>space_left\<close> as such, and converted to \<open>size_type\<close> where it is added to
  \<open>offset\<close> and \<open>_size\<close> and where it is passed to \<open>alloc\<close>.
\<close>

definition write_bv :: "(nat \<Rightarrow> bool) \<Rightarrow> byte list \<Rightarrow> bytes_ostream \<Rightarrow> error + bytes_ostream" where
  "write_bv avail v s =
     (if v = [] then Inr s
      else
        bindE (current_space_left s) (\<lambda>space_left.
          if length v \<le> unat space_left then
            bindE (deref s) (\<lambda>(i, c).
              bindE (store (i, unat (offset c)) (map Some v) s) (\<lambda>s1.
                Inr (s1\<lparr>m_begin := (m_begin s1)[i := (m_begin s1 ! i)\<lparr>offset := offset c + of_nat (length v)\<rparr>],
                        m_size := m_size s1 + of_nat (length v)\<rparr>)))
          else
            bindE (if space_left \<noteq> 0 then
                     bindE (deref s) (\<lambda>(i, c).
                       bindE (store (i, unat (offset c)) (map Some (take (unat space_left) v)) s) (\<lambda>s1.
                         Inr (drop (unat space_left) v,
                              s1\<lparr>m_begin := (m_begin s1)[i := (m_begin s1 ! i)\<lparr>offset := offset c + space_left\<rparr>],
                                 m_size := m_size s1 + space_left\<rparr>)))
                   else Inr (v, s)) (\<lambda>(v', s2).
              bindE (alloc avail (of_nat (length v')) s2) (\<lambda>(p, s3).
                store p (map Some v') s3))))"

definition write_blob :: "(nat \<Rightarrow> bool) \<Rightarrow> byte list \<Rightarrow> bytes_ostream \<Rightarrow> error + bytes_ostream" where
  "write_blob avail v s =
     (if unat (of_nat (length v) :: size_type) \<noteq> length v then Inl Assertion_failed
      else bindE (write_T avail (of_nat (length v) :: size_type) s) (write_bv avail v))"

definition is_linearized :: "bytes_ostream \<Rightarrow> bool" where
  "is_linearized s = (case m_begin s of [] \<Rightarrow> True | c # cs \<Rightarrow> cs = [])"

definition view :: "bytes_ostream \<Rightarrow> error + cell list" where
  "view s =
     (if \<not> is_linearized s then Inl Assertion_failed
      else if m_current s = None then Inr []
      else bindE (deref s) (\<lambda>(i, c). load c (unat (m_size s))))"

text \<open>The copy loop of \<open>linearize\<close>: \<open>dst\<close> advances through the payload of the new chunk.\<close>

fun copy_chain :: "chunk list \<Rightarrow> nat \<Rightarrow> cell list \<Rightarrow> error + cell list" where
  "copy_chain [] dst d = Inr d"
| "copy_chain (r # rs) dst d =
     bindE (load r (unat (offset r))) (\<lambda>cs.
       if dst + length cs \<le> length d
       then copy_chain rs (dst + length cs) (take dst d @ cs @ drop (dst + length cs) d)
       else Inl Out_of_bounds)"

definition linearize :: "(nat \<Rightarrow> bool) \<Rightarrow> bytes_ostream \<Rightarrow> error + (cell list \<times> bytes_ostream)" where
  "linearize avail s =
     (if is_linearized s then bindE (view s) (\<lambda>v. Inr (v, s))
      else if \<not> avail (unat (m_size s) + sizeof_chunk) then Inl Bad_alloc
      else
        bindE (copy_chain (m_begin s) 0
                 (replicate (unat (m_size s) + sizeof_chunk - data_start) None)) (\<lambda>d.
          let new_chunk = \<lparr>offset = m_size s, data = d\<rparr>;
              s' = s\<lparr>m_current := Some 0, m_begin := [new_chunk]\<rparr>
          in bindE (load new_chunk (unat (m_size s))) (\<lambda>v. Inr (v, s'))))"

definition size_os :: "bytes_ostream \<Rightarrow> size_type" where
  "size_os s = m_size s"

definition empty_os :: "bytes_ostream \<Rightarrow> bool" where
  "empty_os s = (m_size s = 0)"

text \<open>
  \<open>append\<close> and copy assignment take their argument by reference, and the argument may
  be the object itself. Objects live in a store indexed by address; the loop of
  \<open>append\<close> reads each source chunk from the store as it is at that iteration.
\<close>

type_synonym heap = "nat \<Rightarrow> bytes_ostream"

fun append_loop :: "nat \<Rightarrow> nat \<Rightarrow> nat \<Rightarrow> nat \<Rightarrow> ptr \<Rightarrow> heap \<Rightarrow> error + heap" where
  "append_loop this src 0 k dst h = Inr h"
| "append_loop this src (Suc n) k dst h =
     (let r = m_begin (h src) ! k in
      bindE (load r (unat (offset r))) (\<lambda>cs.
        bindE (store dst cs (h this)) (\<lambda>s'.
          append_loop this src n (Suc k) (fst dst, snd dst + length cs) (h(this := s')))))"

definition append_at :: "(nat \<Rightarrow> bool) \<Rightarrow> nat \<Rightarrow> nat \<Rightarrow> heap \<Rightarrow> error + heap" where
  "append_at avail this src h =
     (if size_os (h src) > 0 then
        bindE (alloc avail (size_os (h src)) (h this)) (\<lambda>(dst, s1).
          let h1 = h(this := s1)
          in append_loop this src (length (m_begin (h1 src))) 0 dst h1)
      else Inr h)"

definition copy_assign :: "(nat \<Rightarrow> bool) \<Rightarrow> nat \<Rightarrow> nat \<Rightarrow> heap \<Rightarrow> error + heap" where
  "copy_assign avail this src h =
     append_at avail this src (h(this := (h this)\<lparr>m_size := 0, m_current := None, m_begin := []\<rparr>))"

text \<open>\<open>append\<close> of a stream that is another object than the destination.\<close>

definition append_os :: "(nat \<Rightarrow> bool) \<Rightarrow> bytes_ostream \<Rightarrow> bytes_ostream \<Rightarrow> error + bytes_ostream" where
  "append_os avail other s =
     bindE (append_at avail 0 1 (\<lambda>a. if a = 0 then s else other)) (\<lambda>h. Inr (h 0))"

text \<open>
  Sequences of operations on one stream. \<open>op_length\<close> is the number of bytes an
  operation writes or allocates.
\<close>

datatype op =
    Write_u8 "8 word"
  | Write_u16 "16 word"
  | Write_u32 "32 word"
  | Write_u64 "64 word"
  | Write_bytes "byte list"
  | Write_blob "byte list"
  | Write_place_holder nat
  | Append bytes_ostream

fun apply_op :: "(nat \<Rightarrow> bool) \<Rightarrow> op \<Rightarrow> bytes_ostream \<Rightarrow> error + bytes_ostream" where
  "apply_op avail (Write_u8 x) s = write_T avail x s"
| "apply_op avail (Write_u16 x) s = write_T avail x s"
| "apply_op avail (Write_u32 x) s = write_T avail x s"
| "apply_op avail (Write_u64 x) s = write_T avail x s"
| "apply_op avail (Write_bytes v) s = write_bv avail v s"
| "apply_op avail (Write_blob v) s = write_blob avail v s"
| "apply_op avail (Write_place_holder n) s =
     bindE (write_place_holder avail n s) (\<lambda>(ph, s'). Inr s')"
| "apply_op avail (Append other) s = append_os avail other s"

fun run :: "(nat \<Rightarrow> bool) \<Rightarrow> op list \<Rightarrow> bytes_ostream \<Rightarrow> error + bytes_ostream" where
  "run avail [] s = Inr s"
| "run avail (x # xs) s = bindE (apply_op avail x s) (run avail xs)"

fun op_length :: "op \<Rightarrow> nat" where
  "op_length (Write_u8 x) = 1"
| "op_length (Write_u16 x) = 2"
| "op_length (Write_u32 x) = 4"
| "op_length (Write_u64 x) = 8"
| "op_length (Write_bytes v) = length v"
| "op_length (Write_blob v) = 4 + length v"
| "op_length (Write_place_holder n) = n"
| "op_length (Append other) = unat (size_os other)"

section \<open>The streaming UTF-8 validator (utils/utf8.hh)\<close>

text \<open>
  \<open>validate_with_error_position_fragmented\<close> is defined in the header; the two
  functions it calls, \<open>internal::validate_partial\<close> and the whole-buffer
  \<open>validate_with_error_position\<close>, are only declared there. The streaming validator
  takes them as the parameters \<open>vp\<close> and \<open>vwep\<close>. A fragmented view is the list of its
  fragments. The counters are \<open>size_t\<close> values that count bytes of the input; they are
  natural numbers.

  Three steps of the function have no defined behaviour when they go wrong, and are
  faults of the model: a write to \<open>partial_codepoint\<close> at an index that is not below 4,
  the subtraction \<open>len - pvr.unvalidated_tail\<close> when the reported tail is longer than
  the fragment (the reads that follow leave the fragment), and the dereference of an
  empty optional.
\<close>

record partial_validation_results =
  error :: bool
  unvalidated_tail :: nat
  bytes_needed_for_tail :: nat

datatype fault = Carry_overflow | Fragment_overrun | Empty_optional

record fstate =
  partial_codepoint :: "byte list"
  partial_filled :: nat
  partial_more_needed :: nat
  bytes_validated :: nat

datatype step_result = Returned "nat option" | Next_fragment fstate

text \<open>The locals before the loop. The contents of the array are never read before they are written.\<close>

definition init_state :: fstate where
  "init_state = \<lparr>partial_codepoint = replicate 4 0, partial_filled = 0,
                 partial_more_needed = 0, bytes_validated = 0\<rparr>"

text \<open>\<open>partial_codepoint[partial_filled++] = *data++\<close>.\<close>

definition push_byte :: "byte \<Rightarrow> fstate \<Rightarrow> fault + fstate" where
  "push_byte b st =
     (if partial_filled st < 4
      then Inr (st\<lparr>partial_codepoint := (partial_codepoint st)[partial_filled st := b],
                  partial_filled := Suc (partial_filled st)\<rparr>)
      else Inl Carry_overflow)"

text \<open>\<open>while (partial_more_needed && len)\<close>: returns the state and the unread rest of the fragment.\<close>

fun fill_partial :: "fstate \<Rightarrow> byte list \<Rightarrow> fault + (fstate \<times> byte list)" where
  "fill_partial st [] = Inr (st, [])"
| "fill_partial st (b # bs) =
     (if partial_more_needed st = 0 then Inr (st, b # bs)
      else case push_byte b st of
             Inl e \<Rightarrow> Inl e
           | Inr st' \<Rightarrow> fill_partial (st'\<lparr>partial_more_needed := partial_more_needed st' - 1\<rparr>) bs)"

text \<open>\<open>while (len)\<close>: copies the unvalidated tail into the carry buffer.\<close>

fun copy_tail :: "fstate \<Rightarrow> byte list \<Rightarrow> fault + fstate" where
  "copy_tail st [] = Inr st"
| "copy_tail st (b # bs) =
     (case push_byte b st of Inl e \<Rightarrow> Inl e | Inr st' \<Rightarrow> copy_tail st' bs)"

text \<open>The second half of the loop body, from the call of \<open>validate_partial\<close> on.\<close>

definition validate_rest ::
  "(byte list \<Rightarrow> partial_validation_results) \<Rightarrow> (byte list \<Rightarrow> nat option) \<Rightarrow>
     fstate \<Rightarrow> byte list \<Rightarrow> fault + step_result" where
  "validate_rest vp vwep st dat =
     (let pvr = vp dat in
      if error pvr then
        (case vwep dat of
           None \<Rightarrow> Inl Empty_optional
         | Some p \<Rightarrow> Inr (Returned (Some (bytes_validated st + p))))
      else if length dat < unvalidated_tail pvr then Inl Fragment_overrun
      else
        let st1 = st\<lparr>bytes_validated := bytes_validated st + (length dat - unvalidated_tail pvr)\<rparr>
        in case copy_tail st1 (drop (length dat - unvalidated_tail pvr) dat) of
             Inl e \<Rightarrow> Inl e
           | Inr st2 \<Rightarrow>
               Inr (Next_fragment (st2\<lparr>partial_more_needed := bytes_needed_for_tail pvr\<rparr>)))"

text \<open>One iteration of the loop over the fragments.\<close>

definition frag_step ::
  "(byte list \<Rightarrow> partial_validation_results) \<Rightarrow> (byte list \<Rightarrow> nat option) \<Rightarrow>
     fstate \<Rightarrow> byte list \<Rightarrow> fault + step_result" where
  "frag_step vp vwep st frag =
     (if partial_more_needed st \<noteq> 0 then
        (case fill_partial st frag of
           Inl e \<Rightarrow> Inl e
         | Inr (st1, dat) \<Rightarrow>
             if partial_more_needed st1 = 0 then
               (if error (vp (take (partial_filled st1) (partial_codepoint st1)))
                then Inr (Returned (Some (bytes_validated st1)))
                else
                  let st2 = st1\<lparr>bytes_validated := bytes_validated st1 + partial_filled st1,
                                 partial_filled := 0, partial_more_needed := 0\<rparr>
                  in if dat = [] then Inr (Next_fragment st2)
                     else validate_rest vp vwep st2 dat)
             else if dat = [] then Inr (Next_fragment st1)
             else validate_rest vp vwep st1 dat)
      else validate_rest vp vwep st frag)"

fun fragments_loop ::
  "(byte list \<Rightarrow> partial_validation_results) \<Rightarrow> (byte list \<Rightarrow> nat option) \<Rightarrow>
     fstate \<Rightarrow> byte list list \<Rightarrow> fault + step_result" where
  "fragments_loop vp vwep st [] = Inr (Next_fragment st)"
| "fragments_loop vp vwep st (frag # frags) =
     (case frag_step vp vwep st frag of
        Inl e \<Rightarrow> Inl e
      | Inr (Returned r) \<Rightarrow> Inr (Returned r)
      | Inr (Next_fragment st') \<Rightarrow> fragments_loop vp vwep st' frags)"

text \<open>The statements after the loop.\<close>

definition after_loop :: "step_result \<Rightarrow> nat option" where
  "after_loop r =
     (case r of
        Returned res \<Rightarrow> res
      | Next_fragment st \<Rightarrow>
          if partial_more_needed st \<noteq> 0 then Some (bytes_validated st) else None)"

definition validate_with_error_position_fragmented ::
  "(byte list \<Rightarrow> partial_validation_results) \<Rightarrow> (byte list \<Rightarrow> nat option) \<Rightarrow>
     byte list list \<Rightarrow> fault + nat option" where
  "validate_with_error_position_fragmented vp vwep fv =
     (case fragments_loop vp vwep init_state fv of
        Inl e \<Rightarrow> Inl e
      | Inr r \<Rightarrow> Inr (after_loop r))"

subsection \<open>The partial validator and the whole-buffer validator\<close>

text \<open>
  Modelled from the spec: \<open>internal::validate_partial\<close>, \<open>validate\<close> and
  \<open>validate_with_error_position\<close> on a contiguous buffer are declared in the header and
  defined in a source file that is not part of the excerpt. The definitions below follow
  section 4.2 of the specification. The scan goes left to right, one sequence at a time.
  A byte \<open>00..7F\<close> is a sequence of its own; \<open>C2..DF\<close>, \<open>E0..EF\<close> and \<open>F0..F4\<close> start
  sequences of 2, 3 and 4 bytes; every other byte (a continuation byte, \<open>C0\<close>, \<open>C1\<close>,
  \<open>F5\<close> and above) cannot start a sequence. The second byte of a sequence lies in the
  sub-range that excludes overlong encodings, surrogates and code points above
  \<open>10FFFF\<close>; the later bytes lie in \<open>80..BF\<close>. A sequence with a byte outside its range
  is an error, located at its first byte. A sequence that the end of the input cuts
  short, with every byte that is present in its range, is the unresolved tail.
\<close>

definition seq_length :: "byte \<Rightarrow> nat" where
  "seq_length b =
     (if b \<le> 0x7F then 1
      else if 0xC2 \<le> b \<and> b \<le> 0xDF then 2
      else if 0xE0 \<le> b \<and> b \<le> 0xEF then 3
      else if 0xF0 \<le> b \<and> b \<le> 0xF4 then 4
      else 0)"

definition second_ok :: "byte \<Rightarrow> byte \<Rightarrow> bool" where
  "second_ok lead b =
     (if lead = 0xE0 then 0xA0 \<le> b \<and> b \<le> 0xBF
      else if lead = 0xED then 0x80 \<le> b \<and> b \<le> 0x9F
      else if lead = 0xF0 then 0x90 \<le> b \<and> b \<le> 0xBF
      else if lead = 0xF4 then 0x80 \<le> b \<and> b \<le> 0x8F
      else 0x80 \<le> b \<and> b \<le> 0xBF)"

fun conts_ok :: "byte \<Rightarrow> nat \<Rightarrow> byte list \<Rightarrow> bool" where
  "conts_ok lead i [] = True"
| "conts_ok lead i (b # bs) =
     ((if i = 1 then second_ok lead b else 0x80 \<le> b \<and> b \<le> 0xBF) \<and> conts_ok lead (Suc i) bs)"

datatype scan_result = Well_formed | Unresolved nat nat nat | Ill_formed nat

text \<open>
  \<open>scan pos bs\<close> scans \<open>bs\<close>, which starts at byte \<open>pos\<close> of the buffer.
  \<open>Unresolved p t k\<close>: the unresolved tail starts at \<open>p\<close>, is \<open>t\<close> bytes long and needs
  \<open>k\<close> more bytes. \<open>Ill_formed p\<close>: the first error is at \<open>p\<close>.
\<close>

fun scan :: "nat \<Rightarrow> byte list \<Rightarrow> scan_result" where
  "scan pos [] = Well_formed"
| "scan pos (b # bs) =
     (let n = seq_length b in
      if n = 0 then Ill_formed pos
      else if \<not> conts_ok b 1 (take (n - 1) bs) then Ill_formed pos
      else if length bs < n - 1 then Unresolved pos (Suc (length bs)) (n - 1 - length bs)
      else scan (pos + n) (drop (n - 1) bs))"

definition validate_partial :: "byte list \<Rightarrow> partial_validation_results" where
  "validate_partial bs =
     (case scan 0 bs of
        Well_formed \<Rightarrow> \<lparr>error = False, unvalidated_tail = 0, bytes_needed_for_tail = 0\<rparr>
      | Unresolved p t k \<Rightarrow> \<lparr>error = False, unvalidated_tail = t, bytes_needed_for_tail = k\<rparr>
      | Ill_formed p \<Rightarrow> \<lparr>error = True, unvalidated_tail = 0, bytes_needed_for_tail = 0\<rparr>)"

definition validate_with_error_position :: "byte list \<Rightarrow> nat option" where
  "validate_with_error_position bs =
     (case scan 0 bs of
        Well_formed \<Rightarrow> None
      | Unresolved p t k \<Rightarrow> Some p
      | Ill_formed p \<Rightarrow> Some p)"

definition validate :: "byte list \<Rightarrow> bool" where
  "validate bs = (scan 0 bs = Well_formed)"

text \<open>
  The bytes held in the carry buffer, and the bounds that keep every write to it inside
  the array. \<open>tail_bounded\<close> and \<open>tail_pending\<close> are properties of a partial
  validator: the tail it reports has at most 3 bytes and together with the bytes it
  asks for at most 4; and it reports no tail when it asks for no more bytes.
\<close>

definition carry :: "fstate \<Rightarrow> byte list" where
  "carry st = take (partial_filled st) (partial_codepoint st)"

definition carry_inv :: "fstate \<Rightarrow> bool" where
  "carry_inv st =
     (length (partial_codepoint st) = 4
      \<and> partial_filled st + partial_more_needed st \<le> 4
      \<and> (partial_more_needed st = 0 \<longrightarrow> partial_filled st = 0))"

definition tail_bounded :: "(byte list \<Rightarrow> partial_validation_results) \<Rightarrow> bool" where
  "tail_bounded vp =
     (\<forall>bs. unvalidated_tail (vp bs) \<le> 3
           \<and> unvalidated_tail (vp bs) + bytes_needed_for_tail (vp bs) \<le> 4)"

definition tail_pending :: "(byte list \<Rightarrow> partial_validation_results) \<Rightarrow> bool" where
  "tail_pending vp = (\<forall>bs. bytes_needed_for_tail (vp bs) = 0 \<longrightarrow> unvalidated_tail (vp bs) = 0)"

text \<open>
  The relation between the state of the streaming validator and the bytes \<open>seen\<close> that
  it has consumed so far. With nothing pending, all of \<open>seen\<close> is well-formed and
  counted as validated. Otherwise the validated prefix of \<open>seen\<close> is well-formed, the
  bytes after it are the ones in the carry buffer, and these are the beginning of one
  sequence, whose first byte asks for as many bytes as the buffer holds and still needs.
\<close>

fun shift :: "nat \<Rightarrow> scan_result \<Rightarrow> scan_result" where
  "shift a Well_formed = Well_formed"
| "shift a (Unresolved p t k) = Unresolved (a + p) t k"
| "shift a (Ill_formed p) = Ill_formed (a + p)"

definition pending_ok :: "byte list \<Rightarrow> nat \<Rightarrow> bool" where
  "pending_ok buf k = (buf \<noteq> [] \<and> k \<noteq> 0 \<and> seq_length (hd buf) = length buf + k)"

definition stream_inv :: "fstate \<Rightarrow> byte list \<Rightarrow> bool" where
  "stream_inv st seen =
     (carry_inv st \<and>
      (if partial_more_needed st = 0
       then scan 0 seen = Well_formed \<and> bytes_validated st = length seen
       else bytes_validated st \<le> length seen
            \<and> drop (bytes_validated st) seen = carry st
            \<and> scan 0 (take (bytes_validated st) seen) = Well_formed
            \<and> pending_ok (carry st) (partial_more_needed st)))"

section \<open>Properties of the byte output stream\<close>

lemmas os_defs = bindE_def deref_def current_space_left_def store_def load_def alloc_def
  write_T_def write_bv_def write_blob_def write_place_holder_def is_linearized_def view_def
  linearize_def size_os_def empty_os_def append_at_def copy_assign_def append_os_def
  empty_stream_def usable_chunk_size_def chunk_size_def sizeof_chunk_def data_start_def
  hton_def

lemma bindE_Inr_iff: "bindE m f = Inr y \<longleftrightarrow> (\<exists>x. m = Inr x \<and> f x = Inr y)"
  by (cases m) (simp_all add: bindE_def)

lemma alloc_size: "alloc avail sz s = Inr (p, s') \<Longrightarrow> m_size s' = m_size s + sz"
  by (auto simp: alloc_def bindE_Inr_iff Let_def split: if_splits)

lemma store_size: "store p cs s = Inr s' \<Longrightarrow> m_size s' = m_size s"
  by (auto simp: store_def Let_def split: if_splits prod.splits)

lemma write_T_size:
  "write_T avail (x :: 'a::len word) s = Inr s' \<Longrightarrow> m_size s' = m_size s + of_nat (LENGTH('a) div 8)"
  by (auto simp: write_T_def bindE_Inr_iff dest!: alloc_size store_size)

lemma write_bv_size: "write_bv avail v s = Inr s' \<Longrightarrow> m_size s' = m_size s + of_nat (length v)"
  by (auto simp: write_bv_def bindE_Inr_iff split: if_splits dest!: alloc_size store_size)

lemma write_blob_size:
  "write_blob avail v s = Inr s' \<Longrightarrow> m_size s' = m_size s + 4 + of_nat (length v)"
  by (auto simp: write_blob_def bindE_Inr_iff split: if_splits dest!: write_T_size write_bv_size)

lemma append_loop_size:
  "append_loop this src n k dst h = Inr h' \<Longrightarrow> m_size (h' this) = m_size (h this)"
proof (induction n arbitrary: k dst h)
  case 0
  then show ?case by simp
next
  case (Suc n)
  then show ?case
    by (auto simp: bindE_Inr_iff Let_def dest!: Suc.IH store_size)
qed

lemma append_at_size:
  "append_at avail this src h = Inr h' \<Longrightarrow> m_size (h' this) = m_size (h this) + m_size (h src)"
  by (auto simp: append_at_def bindE_Inr_iff size_os_def Let_def word_gt_0 split: if_splits
      dest!: append_loop_size alloc_size)

lemma append_os_size:
  "append_os avail other s = Inr s' \<Longrightarrow> m_size s' = m_size s + m_size other"
  by (auto simp: append_os_def bindE_Inr_iff dest!: append_at_size)

lemma apply_op_size:
  "apply_op avail x s = Inr s' \<Longrightarrow> m_size s' = m_size s + of_nat (op_length x)"
  by (cases x)
    (auto simp: bindE_Inr_iff write_place_holder_def size_os_def
      dest!: write_T_size write_bv_size write_blob_size alloc_size append_os_size)

lemma run_size:
  "run avail ops s = Inr s' \<Longrightarrow> m_size s' = m_size s + of_nat (sum_list (map op_length ops))"
proof (induction ops arbitrary: s)
  case Nil
  then show ?case by simp
next
  case (Cons x xs)
  then obtain s1 where 1: "apply_op avail x s = Inr s1" and 2: "run avail xs s1 = Inr s'"
    by (auto simp: bindE_Inr_iff)
  show ?case using apply_op_size[OF 1] Cons.IH[OF 2] by simp
qed

lemma of_nat_size_zero: "(of_nat t :: size_type) = 0 \<longleftrightarrow> t mod 2 ^ 32 = 0"
proof -
  have "(of_nat t :: size_type) = 0 \<longleftrightarrow> unat (of_nat t :: size_type) = 0"
    by (simp only: unat_eq_zero)
  then show ?thesis by (simp add: unat_of_nat)
qed

subsection \<open>The filled length of a chunk and its capacity\<close>

text \<open>
  C2. The claim: after every sequence of public operations the \<open>offset\<close> of each chunk
  is at most the size of its payload storage. The code does not keep this. Writing 600
  bytes into an empty stream allocates a block of 616 bytes, whose payload storage is
  604 bytes, with \<open>offset = 600\<close>; \<open>current_space_left\<close> is then
  \<open>usable_chunk_size - 600\<close>, which wraps around to a large value, so the next
  \<open>write_place_holder\<close> of an 8-byte type is served from this chunk, at byte 600 of a
  payload of 604 bytes, and leaves \<open>offset = 608\<close>. The same happens after
  \<open>linearize\<close> of a two-chunk stream of 600 bytes. Each result below is the returned
  pointer and, for every chunk, its offset and the size of its payload storage.
\<close>

theorem offset_exceeds_capacity_after_oversized_chunk:
  "bindE (write_bv (\<lambda>_. True) (replicate 600 0) empty_stream) (\<lambda>s.
     bindE (write_place_holder (\<lambda>_. True) 8 s) (\<lambda>(p, s').
       Inr (p, map (\<lambda>c. (unat (offset c), length (data c))) (m_begin s'))))
   = Inr ((0, 600), [(608, 604)])
   \<and>
   bindE (write_bv (\<lambda>_. True) (replicate 300 0) empty_stream) (\<lambda>s.
     bindE (write_bv (\<lambda>_. True) (replicate 300 1) s) (\<lambda>s1.
       bindE (linearize (\<lambda>_. True) s1) (\<lambda>(v, s2).
         bindE (write_place_holder (\<lambda>_. True) 8 s2) (\<lambda>(p, s').
           Inr (p, map (\<lambda>c. (unat (offset c), length (data c))) (m_begin s'))))))
   = Inr ((0, 600), [(608, 604)])"
  by (simp add: os_defs)

subsection \<open>The allocation primitive\<close>

text \<open>
  C5. The claim: \<open>alloc n\<close> serves the request from the current chunk when that chunk
  has at least \<open>n\<close> bytes of unused capacity, and otherwise links a new chunk. After
  \<open>alloc 600\<close> on an empty stream the current chunk has 604 bytes of payload storage,
  600 of them used. \<open>alloc 8\<close> then creates no chunk: it returns byte 600 of that
  chunk and sets its offset to 608.
\<close>

theorem alloc_after_oversized_chunk:
  "bindE (alloc (\<lambda>_. True) 600 empty_stream) (\<lambda>(p, s). alloc (\<lambda>_. True) 8 s) =
   Inr ((0, 600),
        \<lparr>m_begin = [\<lparr>offset = 608, data = replicate 604 None\<rparr>],
         m_current = Some 0, m_size = 608\<rparr>)"
  by (simp add: os_defs word_le_nat_alt)

subsection \<open>Copy assignment of a stream to itself\<close>

text \<open>
  C9. Copy-assigning a stream to itself leaves it empty: the assignment resets the
  destination first, and \<open>append\<close> then reads the size of the source, which is the
  same, already reset, object. For every store \<open>h\<close> and every address \<open>a\<close> the
  assignment returns, and afterwards the object at \<open>a\<close> has size 0, is empty, and its
  view has length zero.
\<close>

theorem self_copy_assign_leaves_empty:
  "\<exists>h'. copy_assign avail a a h = Inr h' \<and> size_os (h' a) = 0 \<and> empty_os (h' a)
      \<and> view (h' a) = Inr []"
  by (simp add: copy_assign_def append_at_def size_os_def empty_os_def view_def
      is_linearized_def)

subsection \<open>Linearizing a sequence of writes\<close>

text \<open>
  C3. The claim: after every sequence of writes, \<open>linearize()\<close> followed by \<open>view()\<close>
  yields the concatenation of the bytes written. The code does not do this for a write
  that follows an oversized chunk. After a write of 600 bytes the only chunk has 604
  bytes of payload storage and \<open>offset = 600\<close>, and \<open>current_space_left\<close> is
  \<open>usable_chunk_size - 600\<close>, which wraps around to 4294967192. A write of 100 bytes
  is therefore copied to byte 600 of that chunk, 96 bytes past the end of its block,
  where the concatenation of the 700 bytes should have been stored.
\<close>

theorem write_after_oversized_chunk_leaves_block:
  "bindE (write_bv (\<lambda>_. True) (replicate 600 1) empty_stream) (\<lambda>s.
     Inr (map (\<lambda>c. (unat (offset c), length (data c))) (m_begin s), current_space_left s))
   = Inr ([(600, 604)], Inr 4294967192)
   \<and>
   bindE (run (\<lambda>_. True) [Write_bytes (replicate 600 1), Write_bytes (replicate 100 2)]
            empty_stream)
     (\<lambda>s. bindE (linearize (\<lambda>_. True) s) (\<lambda>(v, s'). Inr v))
   = Inl Out_of_bounds"
  by (simp add: os_defs word_le_nat_alt)

subsection \<open>The size of a stream\<close>

text \<open>
  C4, as amended. \<open>_size\<close> has the type \<open>size_type\<close>, which is 32 bits wide. After a
  sequence of write operations (value writes, byte-range writes, blobs, placeholder
  allocations, appends of another stream) on an empty stream, \<open>size()\<close> is the sum of
  the byte lengths written or allocated, reduced modulo \<open>2 ^ 32\<close>, and \<open>empty()\<close>
  holds exactly when that is zero. When the sum is below \<open>2 ^ 32\<close>, \<open>size()\<close> is the
  sum and \<open>empty()\<close> holds exactly when the sum is zero.
\<close>

theorem size_is_sum_of_lengths:
  assumes "run avail ops empty_stream = Inr s"
  shows "unat (size_os s) = sum_list (map op_length ops) mod 2 ^ 32
      \<and> (empty_os s \<longleftrightarrow> sum_list (map op_length ops) mod 2 ^ 32 = 0)
      \<and> (sum_list (map op_length ops) < 2 ^ 32 \<longrightarrow>
           unat (size_os s) = sum_list (map op_length ops)
           \<and> (empty_os s \<longleftrightarrow> sum_list (map op_length ops) = 0))"
proof -
  from run_size[OF assms]
  have "unat (size_os s) = sum_list (map op_length ops) mod 2 ^ 32
      \<and> (empty_os s \<longleftrightarrow> sum_list (map op_length ops) mod 2 ^ 32 = 0)"
    by (simp add: size_os_def empty_os_def empty_stream_def unat_of_nat of_nat_size_zero)
  then show ?thesis by simp
qed

theorem size_is_sum_of_lengths_witness:
  "\<exists>s. run (\<lambda>_. True)
          [Write_u16 0x1234, Write_blob [0x63, 0x61, 0x66, 0xC3, 0xA9], Write_place_holder 4,
           Append \<lparr>m_begin = [\<lparr>offset = 2, data = Some 7 # Some 8 # replicate 498 None\<rparr>],
                   m_current = Some 0, m_size = 2\<rparr>]
          empty_stream = Inr s
       \<and> unat (size_os s) = 17 \<and> \<not> empty_os s"
proof -
  let ?ops = "[Write_u16 0x1234, Write_blob [0x63, 0x61, 0x66, 0xC3, 0xA9], Write_place_holder 4,
           Append \<lparr>m_begin = [\<lparr>offset = 2, data = Some 7 # Some 8 # replicate 498 None\<rparr>],
                   m_current = Some 0, m_size = 2\<rparr>]"
  have "\<exists>s. run (\<lambda>_. True) ?ops empty_stream = Inr s"
    by (simp add: os_defs word_le_nat_alt upt_rec)
  then obtain s where r: "run (\<lambda>_. True) ?ops empty_stream = Inr s" ..
  from size_is_sum_of_lengths[OF r]
  have "unat (size_os s) = 17 \<and> \<not> empty_os s"
    by (simp add: size_os_def)
  with r show ?thesis by blast
qed

text \<open>
  The claim as stated fails where the sum reaches \<open>2 ^ 32\<close>. A stream receives
  2147484648 bytes in one write and then, by \<open>append\<close>, the 2147483648 bytes of a second
  stream. Each of the two requests gets a chunk of its own, no byte is stored outside a
  chunk, and 4294968296 bytes have been written; \<open>size()\<close> is 1000. The result below is
  \<open>size()\<close>, \<open>empty()\<close> and the sum of the byte lengths.
\<close>

theorem size_wraps_counterexample:
  "bindE (write_bv (\<lambda>_. True) (replicate 2147483648 2) empty_stream) (\<lambda>b.
     bindE (run (\<lambda>_. True) [Write_bytes (replicate 2147484648 1), Append b] empty_stream) (\<lambda>s.
       Inr (unat (size_os s), empty_os s,
            sum_list (map op_length [Write_bytes (replicate 2147484648 1), Append b]))))
   = Inr (1000, False, 4294968296)"
  by (simp add: os_defs word_le_nat_alt unat_of_nat)

subsection \<open>The blob format\<close>

text \<open>
  C7. The claim: \<open>write_blob(v)\<close> appends the length of \<open>v\<close> as a big-endian integer of
  the width of \<open>size_type\<close>, followed by the bytes of \<open>v\<close>. The code does not do this on
  a stream whose current chunk is oversized. After a write of 600 bytes the length
  prefix of a blob of 100 bytes goes to bytes 600 to 603 of the chunk, the last of its
  604 bytes of payload storage. \<open>current_space_left\<close> is then \<open>usable_chunk_size - 604\<close>,
  which wraps around to 4294967188, and the 100 bytes of the blob are copied to byte 604
  of the chunk, all of them past the end of its block.
\<close>

theorem write_blob_after_oversized_chunk_leaves_block:
  "bindE (write_bv (\<lambda>_. True) (replicate 600 1) empty_stream) (\<lambda>s.
     bindE (write_T (\<lambda>_. True) (100 :: size_type) s) (\<lambda>s1.
       Inr (map (\<lambda>c. (unat (offset c), length (data c))) (m_begin s1), current_space_left s1)))
   = Inr ([(604, 604)], Inr 4294967188)
   \<and>
   bindE (write_bv (\<lambda>_. True) (replicate 600 1) empty_stream)
     (write_blob (\<lambda>_. True) (replicate 100 2))
   = Inl Out_of_bounds"
  by (simp add: os_defs word_le_nat_alt unat_of_nat upt_rec)

subsection \<open>Appending one stream to another\<close>

text \<open>
  C6. The claim: appending \<open>b\<close> onto \<open>a\<close> and linearizing \<open>a\<close> yields the bytes of \<open>a\<close>
  followed by the bytes of \<open>b\<close>. The code does not do this when the current chunk of
  \<open>a\<close> is oversized. Let \<open>a\<close> hold 600 bytes from one write and \<open>b\<close> hold 100 bytes.
  \<open>append\<close> asks \<open>alloc\<close> for 100 bytes; \<open>current_space_left\<close> has wrapped around, so
  \<open>alloc\<close> returns byte 600 of the only chunk of \<open>a\<close>, whose payload storage is 604
  bytes, and the copy loop stores the bytes of \<open>b\<close> there, 96 of them past the end of
  the block.
\<close>

theorem append_after_oversized_chunk_leaves_block:
  "bindE (write_bv (\<lambda>_. True) (replicate 600 1) empty_stream) (\<lambda>a.
     bindE (alloc (\<lambda>_. True) 100 a) (\<lambda>(dst, a').
       Inr (dst, map (\<lambda>c. (unat (offset c), length (data c))) (m_begin a'))))
   = Inr ((0, 600), [(700, 604)])
   \<and>
   bindE (write_bv (\<lambda>_. True) (replicate 600 1) empty_stream) (\<lambda>a.
     bindE (write_bv (\<lambda>_. True) (replicate 100 2) empty_stream) (\<lambda>b.
       bindE (append_os (\<lambda>_. True) b a) (\<lambda>a'.
         bindE (linearize (\<lambda>_. True) a') (\<lambda>(v, s'). Inr v))))
   = Inl Out_of_bounds"
  by (simp add: os_defs word_le_nat_alt unat_of_nat)

section \<open>Properties of the streaming UTF-8 validator\<close>

lemma push_byte_spec:
  assumes "length (partial_codepoint st) = 4" and "partial_filled st < 4"
  shows "\<exists>st'. push_byte b st = Inr st' \<and> length (partial_codepoint st') = 4
       \<and> carry st' = carry st @ [b] \<and> partial_filled st' = Suc (partial_filled st)
       \<and> partial_more_needed st' = partial_more_needed st
       \<and> bytes_validated st' = bytes_validated st"
  using assms by (simp add: push_byte_def carry_def take_Suc_conv_app_nth)

lemma fill_partial_spec:
  "length (partial_codepoint st) = 4 \<Longrightarrow> partial_filled st + partial_more_needed st \<le> 4 \<Longrightarrow>
   \<exists>st1. fill_partial st f = Inr (st1, drop (min (partial_more_needed st) (length f)) f)
       \<and> length (partial_codepoint st1) = 4
       \<and> carry st1 = carry st @ take (min (partial_more_needed st) (length f)) f
       \<and> partial_filled st1 = partial_filled st + min (partial_more_needed st) (length f)
       \<and> partial_more_needed st1 = partial_more_needed st - min (partial_more_needed st) (length f)
       \<and> bytes_validated st1 = bytes_validated st"
proof (induction f arbitrary: st)
  case Nil
  then show ?case by simp
next
  case (Cons b bs)
  show ?case
  proof (cases "partial_more_needed st = 0")
    case True
    with Cons.prems show ?thesis by simp
  next
    case False
    with Cons.prems have lt: "partial_filled st < 4" by simp
    from push_byte_spec[OF Cons.prems(1) lt, of b] obtain st' where
      p: "push_byte b st = Inr st'" and l: "length (partial_codepoint st') = 4"
      and c: "carry st' = carry st @ [b]" and f: "partial_filled st' = Suc (partial_filled st)"
      and n: "partial_more_needed st' = partial_more_needed st"
      and v: "bytes_validated st' = bytes_validated st" by blast
    let ?st = "st'\<lparr>partial_more_needed := partial_more_needed st' - 1\<rparr>"
    have l': "length (partial_codepoint ?st) = 4" using l by simp
    have b': "partial_filled ?st + partial_more_needed ?st \<le> 4" using f n False Cons.prems(2) by simp
    have c': "carry ?st = carry st @ [b]" using c by (simp add: carry_def)
    from Cons.IH[OF l' b'] obtain st1 where
      r: "fill_partial ?st bs = Inr (st1, drop (min (partial_more_needed ?st) (length bs)) bs)"
      and r1: "length (partial_codepoint st1) = 4"
      and r2: "carry st1 = carry ?st @ take (min (partial_more_needed ?st) (length bs)) bs"
      and r3: "partial_filled st1 = partial_filled ?st + min (partial_more_needed ?st) (length bs)"
      and r4: "partial_more_needed st1 = partial_more_needed ?st - min (partial_more_needed ?st) (length bs)"
      and r5: "bytes_validated st1 = bytes_validated ?st" by blast
    obtain k where k: "partial_more_needed st = Suc k" using False by (cases "partial_more_needed st") auto
    have m: "partial_more_needed ?st = k" using n k by simp
    show ?thesis
      using False p r r1 r2 r3 r4 r5 c' f v n
      by (intro exI[of _ st1]) (simp add: k)
  qed
qed

lemma copy_tail_spec:
  "length (partial_codepoint st) = 4 \<Longrightarrow> partial_filled st + length ts \<le> 4 \<Longrightarrow>
   \<exists>st'. copy_tail st ts = Inr st' \<and> length (partial_codepoint st') = 4
       \<and> carry st' = carry st @ ts \<and> partial_filled st' = partial_filled st + length ts
       \<and> partial_more_needed st' = partial_more_needed st
       \<and> bytes_validated st' = bytes_validated st"
proof (induction ts arbitrary: st)
  case Nil
  then show ?case by simp
next
  case (Cons b bs)
  then have lt: "partial_filled st < 4" by simp
  from push_byte_spec[OF Cons.prems(1) lt, of b] obtain st' where
      p: "push_byte b st = Inr st'" and l: "length (partial_codepoint st') = 4"
      and c: "carry st' = carry st @ [b]" and f: "partial_filled st' = Suc (partial_filled st)"
      and n: "partial_more_needed st' = partial_more_needed st"
      and v: "bytes_validated st' = bytes_validated st" by blast
  have "partial_filled st' + length bs \<le> 4" using f Cons.prems(2) by simp
  from Cons.IH[OF l this] p c f n v show ?case by auto
qed

lemma validate_rest_carry:
  assumes tb: "tail_bounded vp" and tp: "tail_pending vp"
    and l: "length (partial_codepoint st) = 4" and f: "partial_filled st = 0"
  shows "validate_rest vp vwep st dat \<noteq> Inl Carry_overflow
       \<and> (\<forall>st'. validate_rest vp vwep st dat = Inr (Next_fragment st') \<longrightarrow> carry_inv st')"
proof -
  let ?pvr = "vp dat"
  let ?t = "unvalidated_tail ?pvr"
  from tb have t3: "?t \<le> 3" and t4: "?t + bytes_needed_for_tail ?pvr \<le> 4"
    by (simp_all add: tail_bounded_def)
  from tp have t0: "bytes_needed_for_tail ?pvr = 0 \<longrightarrow> ?t = 0" by (simp add: tail_pending_def)
  show ?thesis
  proof (cases "error ?pvr \<or> length dat < ?t")
    case True
    then show ?thesis by (auto simp: validate_rest_def Let_def split: option.splits)
  next
    case False
    let ?st1 = "st\<lparr>bytes_validated := bytes_validated st + (length dat - ?t)\<rparr>"
    let ?tl = "drop (length dat - ?t) dat"
    from False have lt: "length ?tl = ?t" by simp
    have "length (partial_codepoint ?st1) = 4" using l by simp
    moreover have "partial_filled ?st1 + length ?tl \<le> 4" using f t3 lt by simp
    ultimately obtain st2 where c: "copy_tail ?st1 ?tl = Inr st2"
      and l2: "length (partial_codepoint st2) = 4"
      and f2: "partial_filled st2 = partial_filled ?st1 + length ?tl"
      using copy_tail_spec[of ?st1 ?tl] by blast
    have "validate_rest vp vwep st dat = Inr (Next_fragment (st2\<lparr>partial_more_needed := bytes_needed_for_tail ?pvr\<rparr>))"
      using False c by (simp add: validate_rest_def Let_def)
    moreover have "carry_inv (st2\<lparr>partial_more_needed := bytes_needed_for_tail ?pvr\<rparr>)"
      using l2 f2 f lt t4 t0 by (simp add: carry_inv_def)
    ultimately show ?thesis by simp
  qed
qed

lemma frag_step_carry:
  assumes tb: "tail_bounded vp" and tp: "tail_pending vp" and ci: "carry_inv st"
  shows "frag_step vp vwep st frag \<noteq> Inl Carry_overflow
       \<and> (\<forall>st'. frag_step vp vwep st frag = Inr (Next_fragment st') \<longrightarrow> carry_inv st')"
proof (cases "partial_more_needed st = 0")
  case True
  with ci have "partial_filled st = 0" and "length (partial_codepoint st) = 4"
    by (simp_all add: carry_inv_def)
  from validate_rest_carry[OF tb tp this(2) this(1), of vwep frag] True
  show ?thesis by (simp add: frag_step_def)
next
  case False
  from ci have l: "length (partial_codepoint st) = 4"
    and b: "partial_filled st + partial_more_needed st \<le> 4" by (simp_all add: carry_inv_def)
  define j where "j = min (partial_more_needed st) (length frag)"
  define dat where "dat = drop j frag"
  from fill_partial_spec[OF l b, of frag] obtain st1 where
    fp: "fill_partial st frag = Inr (st1, dat)"
    and l1: "length (partial_codepoint st1) = 4"
    and f1: "partial_filled st1 = partial_filled st + j"
    and n1: "partial_more_needed st1 = partial_more_needed st - j"
    unfolding j_def dat_def by blast
  show ?thesis
  proof (cases "partial_more_needed st1 = 0")
    case True
    let ?st2 = "st1\<lparr>bytes_validated := bytes_validated st1 + partial_filled st1,
                                 partial_filled := 0, partial_more_needed := 0\<rparr>"
    have c2: "carry_inv ?st2" using l1 by (simp add: carry_inv_def)
    have "length (partial_codepoint ?st2) = 4" "partial_filled ?st2 = 0" using l1 by simp_all
    from validate_rest_carry[OF tb tp this, of vwep dat] c2 False True fp
    show ?thesis by (simp add: frag_step_def Let_def)
  next
    case n: False
    with n1 have "j = length frag" by (simp add: j_def min_def split: if_splits)
    then have e: "dat = []" by (simp add: dat_def)
    have "carry_inv st1" using l1 f1 n1 n b by (simp add: carry_inv_def)
    with False n fp e show ?thesis by (simp add: frag_step_def)
  qed
qed

lemma fragments_loop_carry:
  "tail_bounded vp \<Longrightarrow> tail_pending vp \<Longrightarrow> carry_inv st \<Longrightarrow>
     fragments_loop vp vwep st frags \<noteq> Inl Carry_overflow
     \<and> (\<forall>st'. fragments_loop vp vwep st frags = Inr (Next_fragment st') \<longrightarrow> carry_inv st')"
proof (induction frags arbitrary: st)
  case Nil
  then show ?case by simp
next
  case (Cons f fs)
  from frag_step_carry[OF Cons.prems, of vwep f]
  have 1: "frag_step vp vwep st f \<noteq> Inl Carry_overflow"
    and 2: "\<And>st'. frag_step vp vwep st f = Inr (Next_fragment st') \<Longrightarrow> carry_inv st'" by auto
  show ?case
  proof (cases "frag_step vp vwep st f")
    case (Inl e)
    with 1 show ?thesis by simp
  next
    case (Inr r)
    show ?thesis
    proof (cases r)
      case (Returned x)
      with Inr show ?thesis by simp
    next
      case (Next_fragment st')
      with Inr 2 have "carry_inv st'" by simp
      from Cons.IH[OF Cons.prems(1,2) this] Inr Next_fragment show ?thesis by simp
    qed
  qed
qed

lemma init_carry_inv: "carry_inv init_state"
  by (simp add: carry_inv_def init_state_def)

lemma seq_length_le4: "seq_length b \<le> 4"
  by (simp add: seq_length_def)

lemma conts_ok_append:
  "conts_ok l i (xs @ ys) = (conts_ok l i xs \<and> conts_ok l (i + length xs) ys)"
  by (induction xs arbitrary: i) auto

lemma scan_shift: "scan (a + pos) bs = shift a (scan pos bs)"
proof (induction pos bs arbitrary: a rule: scan.induct)
  case (1 pos)
  then show ?case by simp
next
  case (2 pos b bs)
  show ?case
  proof (cases "seq_length b = 0 \<or> \<not> conts_ok b 1 (take (seq_length b - 1) bs) \<or> length bs < seq_length b - 1")
    case True
    then show ?thesis by (auto simp: Let_def)
  next
    case False
    with 2[OF refl, of "a"] show ?thesis by (simp add: Let_def add.assoc)
  qed
qed

lemma scan_shift0: "scan pos bs = shift pos (scan 0 bs)"
  using scan_shift[of pos 0 bs] by simp

lemma scan_append_wf:
  "scan pos xs = Well_formed \<Longrightarrow> scan pos (xs @ ys) = scan (pos + length xs) ys"
proof (induction pos xs rule: scan.induct)
  case (1 pos)
  then show ?case by simp
next
  case (2 pos b bs)
  let ?n = "seq_length b"
  from "2.prems" have n0: "?n \<noteq> 0" and c: "conts_ok b 1 (take (?n - 1) bs)"
    and l: "\<not> length bs < ?n - 1" and r: "scan (pos + ?n) (drop (?n - 1) bs) = Well_formed"
    by (auto simp: Let_def split: if_splits)
  from "2.IH"[OF refl _ _ _ r] n0 c l
  have "scan (pos + ?n) (drop (?n - 1) bs @ ys) = scan (pos + ?n + length (drop (?n - 1) bs)) ys"
    by simp
  moreover have "pos + ?n + length (drop (?n - 1) bs) = pos + length (b # bs)" using l n0 by simp
  ultimately show ?case using n0 c l by (simp add: Let_def)
qed

lemma scan_append_ill:
  "scan pos xs = Ill_formed p \<Longrightarrow> scan pos (xs @ ys) = Ill_formed p"
proof (induction pos xs rule: scan.induct)
  case (1 pos)
  then show ?case by simp
next
  case (2 pos b bs)
  let ?n = "seq_length b"
  show ?case
  proof (cases "?n = 0")
    case True
    with "2.prems" show ?thesis by (simp add: Let_def)
  next
    case n0: False
    show ?thesis
    proof (cases "conts_ok b 1 (take (?n - 1) bs)")
      case False
      then have "\<not> conts_ok b 1 (take (?n - 1) (bs @ ys))"
        by (simp add: conts_ok_append)
      with n0 "2.prems" False show ?thesis by (simp add: Let_def)
    next
      case c: True
      with n0 "2.prems" have l: "\<not> length bs < ?n - 1" and r: "scan (pos + ?n) (drop (?n - 1) bs) = Ill_formed p"
        by (auto simp: Let_def split: if_splits)
      from "2.IH"[OF refl n0 _ l r] c
      have "scan (pos + ?n) (drop (?n - 1) bs @ ys) = Ill_formed p" by simp
      with n0 c l show ?thesis by (simp add: Let_def)
    qed
  qed
qed

lemma scan_complete_seq:
  assumes "seq_length b \<noteq> 0" and "length A = seq_length b - 1"
  shows "scan pos (b # A @ B) = (if conts_ok b 1 A then scan (pos + seq_length b) B else Ill_formed pos)"
proof -
  have "take (seq_length b - 1) (A @ B) = A" using assms(2) by simp
  moreover have "\<not> length (A @ B) < seq_length b - 1" using assms(2) by simp
  moreover have "drop (seq_length b - 1) (A @ B) = B" using assms(2) by simp
  ultimately show ?thesis using assms(1) unfolding scan.simps Let_def by (simp only: if_False if_True split: if_splits) auto
qed

lemma scan_unresolved:
  "scan pos bs = Unresolved p t k \<Longrightarrow>
     pos \<le> p \<and> (p - pos) + t = length bs \<and> 1 \<le> t \<and> 1 \<le> k \<and> t + k \<le> 4
     \<and> t + k = seq_length (bs ! (p - pos))
     \<and> scan pos (take (p - pos) bs) = Well_formed"
proof (induction pos bs rule: scan.induct)
  case (1 pos)
  then show ?case by simp
next
  case (2 pos b bs)
  let ?n = "seq_length b"
  from "2.prems" have n0: "?n \<noteq> 0" and c: "conts_ok b 1 (take (?n - 1) bs)"
    by (auto simp: Let_def split: if_splits)
  show ?case
  proof (cases "length bs < ?n - 1")
    case True
    with "2.prems" n0 c have "p = pos" "t = Suc (length bs)" "k = ?n - 1 - length bs"
      by (auto simp: Let_def)
    with True n0 seq_length_le4[of b] show ?thesis by simp
  next
    case False
    with "2.prems" n0 c have r: "scan (pos + ?n) (drop (?n - 1) bs) = Unresolved p t k"
      by (simp add: Let_def)
    from "2.IH"[OF refl n0 _ False r] c
    have ih: "pos + ?n \<le> p" "(p - (pos + ?n)) + t = length (drop (?n - 1) bs)" "1 \<le> t" "1 \<le> k" "t + k \<le> 4"
      "t + k = seq_length (drop (?n - 1) bs ! (p - (pos + ?n)))"
      "scan (pos + ?n) (take (p - (pos + ?n)) (drop (?n - 1) bs)) = Well_formed"
      by simp_all
    define q where "q = p - (pos + ?n)"
    have pq: "p - pos = Suc (?n - 1 + q)" using ih(1) n0 by (simp add: q_def)
    have a1: "pos \<le> p" using ih(1) by simp
    have a2: "(p - pos) + t = length (b # bs)" using ih(2) False n0 unfolding pq q_def by simp
    have a3: "t + k = seq_length ((b # bs) ! (p - pos))"
      unfolding pq using ih(6) False ih(2) ih(3) by (simp add: q_def)
    have tk: "take (?n - 1 + q) bs = take (?n - 1) bs @ take q (drop (?n - 1) bs)"
      by (simp add: take_add)
    define A where "A = take (?n - 1) bs"
    define B where "B = take q (drop (?n - 1) bs)"
    have lA: "length A = ?n - 1" using False by (simp add: A_def)
    have e: "take (p - pos) (b # bs) = b # (A @ B)"
      unfolding pq using tk by (simp add: A_def B_def)
    have cA: "conts_ok b 1 A" using c by (simp add: A_def)
    have "scan pos (b # (A @ B)) = scan (pos + ?n) B"
      using scan_complete_seq[OF n0 lA, of pos B] cA by simp
    then have a4: "scan pos (take (p - pos) (b # bs)) = Well_formed"
      unfolding e using ih(7) by (simp add: B_def q_def)
    show ?thesis using a1 a2 a3 a4 ih by simp
  qed
qed

lemma validate_partial_tail_bounded: "tail_bounded validate_partial"
  unfolding tail_bounded_def
proof
  fix bs
  show "unvalidated_tail (validate_partial bs) \<le> 3
      \<and> unvalidated_tail (validate_partial bs) + bytes_needed_for_tail (validate_partial bs) \<le> 4"
  proof (cases "scan 0 bs")
    case (Unresolved p t k)
    from scan_unresolved[OF this] Unresolved show ?thesis by (simp add: validate_partial_def)
  qed (simp_all add: validate_partial_def)
qed

lemma validate_partial_tail_pending: "tail_pending validate_partial"
  unfolding tail_pending_def
proof
  fix bs
  show "bytes_needed_for_tail (validate_partial bs) = 0 \<longrightarrow> unvalidated_tail (validate_partial bs) = 0"
  proof (cases "scan 0 bs")
    case (Unresolved p t k)
    from scan_unresolved[OF this] Unresolved show ?thesis by (simp add: validate_partial_def)
  qed (simp_all add: validate_partial_def)
qed

lemma carry_length: "carry_inv st \<Longrightarrow> length (carry st) = partial_filled st"
  by (simp add: carry_inv_def carry_def)

lemma validate_rest_idle:
  assumes ci: "carry_inv st" and n0: "partial_more_needed st = 0"
    and wf: "scan 0 seen = Well_formed" and bv: "bytes_validated st = length seen"
  shows "(\<exists>st'. validate_rest validate_partial validate_with_error_position st dat = Inr (Next_fragment st')
             \<and> stream_inv st' (seen @ dat))
       \<or> (\<exists>r. validate_rest validate_partial validate_with_error_position st dat = Inr (Returned r)
             \<and> (\<forall>ys. validate_with_error_position (seen @ dat @ ys) = r))"
proof (cases "scan 0 dat")
  case Well_formed
  have f0: "partial_filled st = 0" using ci n0 by (simp add: carry_inv_def)
  let ?st' = "st\<lparr>bytes_validated := bytes_validated st + length dat, partial_more_needed := 0\<rparr>"
  have "validate_rest validate_partial validate_with_error_position st dat = Inr (Next_fragment ?st')"
    using Well_formed by (simp add: validate_rest_def validate_partial_def Let_def)
  moreover have "scan 0 (seen @ dat) = Well_formed"
    using scan_append_wf[OF wf, of dat] scan_shift0[of "length seen" dat] Well_formed by simp
  then have "stream_inv ?st' (seen @ dat)"
    using ci f0 bv by (simp add: stream_inv_def carry_inv_def)
  ultimately show ?thesis by blast
next
  case (Ill_formed p)
  have "validate_rest validate_partial validate_with_error_position st dat
      = Inr (Returned (Some (bytes_validated st + p)))"
    using Ill_formed by (simp add: validate_rest_def validate_partial_def validate_with_error_position_def Let_def)
  moreover have "validate_with_error_position (seen @ dat @ ys) = Some (bytes_validated st + p)" for ys
  proof -
    have "scan 0 (seen @ dat @ ys) = scan (length seen) (dat @ ys)"
      using scan_append_wf[OF wf, of "dat @ ys"] by simp
    also have "\<dots> = shift (length seen) (scan 0 (dat @ ys))" by (rule scan_shift0)
    also have "scan 0 (dat @ ys) = Ill_formed p" by (rule scan_append_ill[OF Ill_formed])
    finally show ?thesis by (simp add: validate_with_error_position_def bv)
  qed
  ultimately show ?thesis by blast
next
  case (Unresolved p t k)
  from scan_unresolved[OF this] have pt: "p + t = length dat" and t1: "1 \<le> t" and k1: "1 \<le> k"
    and tk: "t + k \<le> 4" and sl: "t + k = seq_length (dat ! p)"
    and pre: "scan 0 (take p dat) = Well_formed" by simp_all
  have f0: "partial_filled st = 0" using ci n0 by (simp add: carry_inv_def)
  have l4: "length (partial_codepoint st) = 4" using ci by (simp add: carry_inv_def)
  let ?st1 = "st\<lparr>bytes_validated := bytes_validated st + (length dat - t)\<rparr>"
  have dr: "drop (length dat - t) dat = drop p dat" using pt by (metis add_diff_cancel_right')
  have ld: "length (drop p dat) = t" using pt by simp
  have "length (partial_codepoint ?st1) = 4" using l4 by simp
  moreover have "partial_filled ?st1 + length (drop p dat) \<le> 4" using f0 ld tk k1 by simp
  ultimately obtain st2 where ct: "copy_tail ?st1 (drop p dat) = Inr st2"
    and l2: "length (partial_codepoint st2) = 4"
    and c2: "carry st2 = carry ?st1 @ drop p dat"
    and f2: "partial_filled st2 = partial_filled ?st1 + length (drop p dat)"
    and v2: "bytes_validated st2 = bytes_validated ?st1"
    using copy_tail_spec[of ?st1 "drop p dat"] by blast
  let ?st' = "st2\<lparr>partial_more_needed := k\<rparr>"
  have res: "validate_rest validate_partial validate_with_error_position st dat = Inr (Next_fragment ?st')"
    using Unresolved pt ct dr by (simp add: validate_rest_def validate_partial_def Let_def)
  have c0: "carry ?st1 = []" using f0 by (simp add: carry_def)
  have cst: "carry ?st' = drop p dat" using c2 c0 by (simp add: carry_def)
  have bv': "bytes_validated ?st' = length seen + p" using v2 bv pt by simp
  have i1: "carry_inv ?st'" using l2 f2 f0 ld tk k1 by (simp add: carry_inv_def)
  have i2: "drop (bytes_validated ?st') (seen @ dat) = carry ?st'"
    unfolding bv' cst by simp
  have i3: "scan 0 (take (bytes_validated ?st') (seen @ dat)) = Well_formed"
    unfolding bv' using scan_append_wf[OF wf, of "take p dat"] scan_shift0[of "length seen" "take p dat"] pre
    by simp
  have ne: "drop p dat \<noteq> []" using ld t1 by auto
  have hd: "hd (drop p dat) = dat ! p" using ne by (simp add: hd_drop_conv_nth)
  have i4: "pending_ok (carry ?st') k"
    unfolding cst pending_ok_def using ne k1 hd sl ld by simp
  have "stream_inv ?st' (seen @ dat)"
    unfolding stream_inv_def using i1 i2 i3 i4 k1 bv' pt by simp
  with res show ?thesis by blast
qed

declare scan.simps(2) [simp del]

lemma frag_step_refines:
  assumes inv: "stream_inv st seen"
  shows "(\<exists>st'. frag_step validate_partial validate_with_error_position st f = Inr (Next_fragment st')
             \<and> stream_inv st' (seen @ f))
       \<or> (\<exists>r. frag_step validate_partial validate_with_error_position st f = Inr (Returned r)
             \<and> (\<forall>ys. validate_with_error_position (seen @ f @ ys) = r))"
proof (cases "partial_more_needed st = 0")
  case True
  with inv have "carry_inv st" "scan 0 seen = Well_formed" "bytes_validated st = length seen"
    by (simp_all add: stream_inv_def)
  from validate_rest_idle[OF this(1) True this(2,3), of f] True
  show ?thesis by (simp add: frag_step_def)
next
  case False
  define k where "k = partial_more_needed st"
  define buf where "buf = carry st"
  define bv where "bv = bytes_validated st"
  define pre where "pre = take bv seen"
  from inv False have ci: "carry_inv st" and bl: "bv \<le> length seen" and dr: "drop bv seen = buf"
    and wf: "scan 0 pre = Well_formed" and po: "pending_ok buf k"
    by (simp_all add: stream_inv_def k_def buf_def bv_def pre_def)
  have seen: "seen = pre @ buf" using dr by (simp add: pre_def flip: dr)
  have lpre: "length pre = bv" using bl by (simp add: pre_def)
  from po have bne: "buf \<noteq> []" and k0: "k \<noteq> 0" and sl: "seq_length (hd buf) = length buf + k"
    by (simp_all add: pending_ok_def)
  have lb: "length buf = partial_filled st" using carry_length[OF ci] by (simp add: buf_def)
  from ci have l4: "length (partial_codepoint st) = 4"
    and b4: "partial_filled st + partial_more_needed st \<le> 4" by (simp_all add: carry_inv_def)
  define j where "j = min k (length f)"
  define dat where "dat = drop j f"
  from fill_partial_spec[OF l4 b4, of f] obtain st1 where
    fp: "fill_partial st f = Inr (st1, dat)"
    and l1: "length (partial_codepoint st1) = 4"
    and c1: "carry st1 = buf @ take j f"
    and f1: "partial_filled st1 = partial_filled st + j"
    and n1: "partial_more_needed st1 = k - j"
    and v1: "bytes_validated st1 = bv"
    unfolding j_def dat_def k_def buf_def bv_def by blast
  show ?thesis
  proof (cases "partial_more_needed st1 = 0")
    case n: False
    with n1 have jl: "j = length f" and jk: "j < k" by (simp_all add: j_def min_def split: if_splits)
    then have e: "dat = []" by (simp add: dat_def)
    have res: "frag_step validate_partial validate_with_error_position st f = Inr (Next_fragment st1)"
      using False n fp e by (simp add: frag_step_def)
    have c1': "carry st1 = buf @ f" using c1 jl by simp
    have i1: "carry_inv st1" using l1 f1 n1 n b4 jk by (simp add: carry_inv_def k_def)
    have i2: "drop (bytes_validated st1) (seen @ f) = carry st1"
      unfolding v1 c1' using dr bl by simp
    have i3: "scan 0 (take (bytes_validated st1) (seen @ f)) = Well_formed"
      unfolding v1 using wf bl by (simp add: pre_def)
    have i4: "pending_ok (carry st1) (partial_more_needed st1)"
      unfolding c1' n1 pending_ok_def using bne sl jl jk by simp
    have "stream_inv st1 (seen @ f)"
      unfolding stream_inv_def using i1 i2 i3 i4 n v1 bl by simp
    with res show ?thesis by blast
  next
    case True
    with n1 have jk: "j = k" by (simp add: j_def min_def split: if_splits)
    then have kf: "k \<le> length f" by (simp add: j_def min_def split: if_splits)
    define b where "b = hd buf"
    define A where "A = tl buf @ take k f"
    have buf1: "carry st1 = b # A" using c1 jk bne by (simp add: b_def A_def)
    have nb: "seq_length b \<noteq> 0" using sl k0 by (simp add: b_def)
    have lbp: "0 < length buf" using bne by simp
    have lA: "length A = seq_length b - 1" using sl kf bne by (cases buf) (simp_all add: A_def b_def)
    have f1n: "partial_filled st1 = seq_length b" using f1 jk lb sl by (simp add: b_def)
    have fsplit: "f = take k f @ dat" by (simp add: dat_def jk)
    have sf: "seen @ f = pre @ (b # A) @ dat"
      unfolding seen using bne fsplit by (simp add: A_def b_def)
    have vp1: "take (partial_filled st1) (partial_codepoint st1) = b # A"
      using buf1 by (simp add: carry_def)
    show ?thesis
    proof (cases "conts_ok b 1 A")
      case bad: False
      have "scan 0 (b # A) = Ill_formed 0" using scan_complete_seq[OF nb lA, of 0 "[]"] bad by simp
      then have "error (validate_partial (b # A))" by (simp add: validate_partial_def)
      then have res: "frag_step validate_partial validate_with_error_position st f = Inr (Returned (Some bv))"
        using False True fp vp1 v1 by (simp add: frag_step_def)
      have "validate_with_error_position (seen @ f @ ys) = Some bv" for ys
      proof -
        have "seen @ f @ ys = (seen @ f) @ ys" by simp
        also have "\<dots> = pre @ (b # A @ (dat @ ys))" unfolding sf by simp
        finally have "scan 0 (seen @ f @ ys) = scan 0 (pre @ (b # A @ (dat @ ys)))"
          by (rule arg_cong)
        also have "\<dots> = scan bv (b # A @ (dat @ ys))"
          using scan_append_wf[OF wf, of "b # A @ (dat @ ys)"] lpre by simp
        also have "\<dots> = Ill_formed bv" using scan_complete_seq[OF nb lA, of bv "dat @ ys"] bad by simp
        finally show ?thesis by (simp add: validate_with_error_position_def)
      qed
      with res show ?thesis by blast
    next
      case good: True
      have s1: "scan 0 (b # A) = Well_formed" using scan_complete_seq[OF nb lA, of 0 "[]"] good by simp
      then have ne: "\<not> error (validate_partial (b # A))" by (simp add: validate_partial_def)
      define st2 where "st2 = st1\<lparr>bytes_validated := bytes_validated st1 + partial_filled st1,
                                 partial_filled := 0, partial_more_needed := 0\<rparr>"
      define seen2 where "seen2 = pre @ (b # A)"
      have c2: "carry_inv st2" using l1 by (simp add: st2_def carry_inv_def)
      have m2: "partial_more_needed st2 = 0" by (simp add: st2_def)
      have w2: "scan 0 seen2 = Well_formed"
        unfolding seen2_def using scan_append_wf[OF wf, of "b # A"] scan_shift0[of "length pre" "b # A"] s1
        by simp
      have v2: "bytes_validated st2 = length seen2"
        using v1 f1n lpre lA nb by (simp add: st2_def seen2_def)
      have sf2: "seen @ f = seen2 @ dat" using sf by (simp add: seen2_def)
      show ?thesis
      proof (cases "dat = []")
        case e: True
        have res: "frag_step validate_partial validate_with_error_position st f = Inr (Next_fragment st2)"
          using False True fp vp1 ne e by (simp add: frag_step_def st2_def Let_def)
        have "stream_inv st2 (seen @ f)"
          unfolding sf2 e using c2 m2 w2 v2 by (simp add: stream_inv_def)
        with res show ?thesis by blast
      next
        case d: False
        have res: "frag_step validate_partial validate_with_error_position st f
            = validate_rest validate_partial validate_with_error_position st2 dat"
          using False True fp vp1 ne d by (simp add: frag_step_def st2_def Let_def)
        have ys: "seen @ f @ ys = seen2 @ dat @ ys" for ys
          using sf2 by (metis append.assoc)
        from validate_rest_idle[OF c2 m2 w2 v2, of dat] show ?thesis
          unfolding res sf2 ys by simp
      qed
    qed
  qed
qed

lemma pending_position:
  assumes inv: "stream_inv st seen" and p: "partial_more_needed st \<noteq> 0"
  shows "validate_with_error_position seen = Some (bytes_validated st)
       \<and> bytes_validated st < length seen
       \<and> scan 0 (take (bytes_validated st) seen) = Well_formed
       \<and> length seen - bytes_validated st < seq_length (seen ! bytes_validated st)"
proof -
  define bv where "bv = bytes_validated st"
  define buf where "buf = carry st"
  define k where "k = partial_more_needed st"
  from inv p have bl: "bv \<le> length seen" and dr: "drop bv seen = buf"
    and wf: "scan 0 (take bv seen) = Well_formed" and po: "pending_ok buf k"
    by (simp_all add: stream_inv_def k_def buf_def bv_def)
  from po obtain b R where buf: "buf = b # R" and k0: "k \<noteq> 0" and sl: "seq_length b = Suc (length R) + k"
    by (cases buf) (auto simp: pending_ok_def)
  have seen: "seen = take bv seen @ b # R" using dr buf by (metis append_take_drop_id)
  have lt: "bv < length seen" using dr buf bl by (metis drop_eq_Nil2 list.distinct(1) not_le_imp_less)
  have nth: "seen ! bv = b" using dr buf lt by (metis nth_via_drop)
  have lr: "length seen - bv = Suc (length R)" using dr buf by (metis length_drop length_Cons)
  have "scan 0 seen = scan bv (b # R)"
    using scan_append_wf[OF wf, of "b # R"] seen bl by simp
  moreover have "scan bv (b # R) = Ill_formed bv \<or> (\<exists>t n. scan bv (b # R) = Unresolved bv t n)"
    using sl k0 by (auto simp: scan.simps(2) Let_def)
  ultimately have "validate_with_error_position seen = Some bv"
    by (auto simp: validate_with_error_position_def)
  then show ?thesis using lt wf nth lr sl k0 by (simp add: bv_def)
qed

lemma after_loop_inv:
  assumes inv: "stream_inv st seen"
  shows "after_loop (Next_fragment st) = validate_with_error_position seen"
proof (cases "partial_more_needed st = 0")
  case True
  with inv show ?thesis by (simp add: after_loop_def stream_inv_def validate_with_error_position_def)
next
  case False
  with pending_position[OF inv False] show ?thesis by (simp add: after_loop_def)
qed

lemma fragments_loop_refines:
  "stream_inv st seen \<Longrightarrow>
     \<exists>res. fragments_loop validate_partial validate_with_error_position st frags = Inr res
         \<and> after_loop res = validate_with_error_position (seen @ concat frags)
         \<and> (\<forall>st'. res = Next_fragment st' \<longrightarrow> stream_inv st' (seen @ concat frags))"
proof (induction frags arbitrary: st seen)
  case Nil
  then show ?case by (simp add: after_loop_inv)
next
  case (Cons f fs)
  from frag_step_refines[OF Cons.prems, of f] show ?case
  proof
    assume "\<exists>st'. frag_step validate_partial validate_with_error_position st f = Inr (Next_fragment st')
             \<and> stream_inv st' (seen @ f)"
    then obtain st' where s: "frag_step validate_partial validate_with_error_position st f = Inr (Next_fragment st')"
      and i: "stream_inv st' (seen @ f)" by blast
    from Cons.IH[OF i] s show ?thesis by simp
  next
    assume "\<exists>r. frag_step validate_partial validate_with_error_position st f = Inr (Returned r)
             \<and> (\<forall>ys. validate_with_error_position (seen @ f @ ys) = r)"
    then obtain r where s: "frag_step validate_partial validate_with_error_position st f = Inr (Returned r)"
      and a: "\<And>ys. validate_with_error_position (seen @ f @ ys) = r" by blast
    from s a[of "concat fs"] show ?thesis by (simp add: after_loop_def)
  qed
qed

lemma init_stream_inv: "stream_inv init_state []"
  using init_carry_inv by (simp add: stream_inv_def init_state_def)

lemmas utf8_defs = validate_with_error_position_fragmented_def frag_step_def validate_rest_def
  push_byte_def init_state_def after_loop_def validate_partial_def
  validate_with_error_position_def validate_def scan.simps(2) seq_length_def second_ok_def

subsection \<open>Agreement with the whole-buffer validator\<close>

text \<open>
  C1. For every list of fragments, the streaming validator run with the partial
  validator and the whole-buffer validator of the specification returns, without a
  fault, the result of the whole-buffer validator on the concatenation of the
  fragments: it reports valid exactly when the concatenation is valid, and otherwise
  the same position of the first error.
\<close>

theorem fragmented_agrees_with_whole_buffer:
  "validate_with_error_position_fragmented validate_partial validate_with_error_position fv
     = Inr (validate_with_error_position (concat fv))
   \<and> (validate_with_error_position_fragmented validate_partial validate_with_error_position fv
        = Inr None \<longleftrightarrow> validate (concat fv))"
proof -
  from fragments_loop_refines[OF init_stream_inv, of fv]
  have 1: "validate_with_error_position_fragmented validate_partial validate_with_error_position fv
     = Inr (validate_with_error_position (concat fv))"
    by (auto simp: validate_with_error_position_fragmented_def)
  have 2: "validate_with_error_position bs = None \<longleftrightarrow> validate bs" for bs
    by (simp add: validate_with_error_position_def validate_def split: scan_result.splits)
  show ?thesis using 1 2 by simp
qed

theorem fragmented_agrees_with_whole_buffer_witness:
  "validate_with_error_position_fragmented validate_partial validate_with_error_position
     [[0x41, 0xF0], [0x9F, 0x98], [], [0x80, 0x41, 0xC3, 0x28]] = Inr (Some 6)
   \<and> validate_with_error_position [0x41, 0xF0, 0x9F, 0x98, 0x80, 0x41, 0xC3, 0x28] = Some 6
   \<and> \<not> validate [0x41, 0xF0, 0x9F, 0x98, 0x80, 0x41, 0xC3, 0x28]"
proof -
  have w: "validate_with_error_position [0x41, 0xF0, 0x9F, 0x98, 0x80, 0x41, 0xC3, 0x28] = Some 6"
    by (simp add: utf8_defs)
  have c: "concat [[0x41, 0xF0], [0x9F, 0x98], [], [0x80, 0x41, 0xC3, 0x28]]
      = [0x41, 0xF0, 0x9F, 0x98, 0x80, 0x41, 0xC3, 0x28 :: byte]" by simp
  from fragmented_agrees_with_whole_buffer[of "[[0x41, 0xF0], [0x9F, 0x98], [], [0x80, 0x41, 0xC3, 0x28]]"]
  show ?thesis unfolding c w by auto
qed

subsection \<open>Input that ends inside a sequence\<close>



subsection \<open>Accesses to the carry buffer\<close>

text \<open>
  C10. \<open>validate_partial\<close> always reports a tail of at most 3 bytes, with tail length
  plus bytes needed at most 4. For every list of fragments, no write to
  \<open>partial_codepoint\<close> has an index of 4 or more, and after every fragment
  \<open>partial_filled + partial_more_needed \<le> 4\<close>. The state after \<open>n\<close> fragments is the
  one the loop reaches on the first \<open>n\<close> fragments.
\<close>

theorem carry_buffer_in_bounds:
  "tail_bounded validate_partial
   \<and> validate_with_error_position_fragmented validate_partial vwep fv \<noteq> Inl Carry_overflow
   \<and> (\<forall>n st. fragments_loop validate_partial vwep init_state (take n fv)
                 = Inr (Next_fragment st) \<longrightarrow>
             partial_filled st + partial_more_needed st \<le> 4)"
proof (intro conjI)
  note inv = fragments_loop_carry[OF validate_partial_tail_bounded
      validate_partial_tail_pending init_carry_inv, of vwep]
  show "tail_bounded validate_partial" by (rule validate_partial_tail_bounded)
  from inv[of fv]
  show "validate_with_error_position_fragmented validate_partial vwep fv \<noteq> Inl Carry_overflow"
    by (auto simp: validate_with_error_position_fragmented_def split: sum.splits)
  show "\<forall>n st. fragments_loop validate_partial vwep init_state (take n fv)
                 = Inr (Next_fragment st) \<longrightarrow>
             partial_filled st + partial_more_needed st \<le> 4"
    using inv by (auto simp: carry_inv_def)
qed

theorem carry_buffer_in_bounds_witness:
  "validate_with_error_position_fragmented validate_partial validate_with_error_position
        [[0xF0], [0x9F, 0x98], [0x80]] \<noteq> Inl Carry_overflow
   \<and> (\<exists>st. fragments_loop validate_partial validate_with_error_position init_state
              (take 2 [[0xF0], [0x9F, 0x98], [0x80]]) = Inr (Next_fragment st)
          \<and> partial_filled st = 3 \<and> partial_more_needed st = 1
          \<and> partial_filled st + partial_more_needed st \<le> 4)"
proof -
  let ?fv = "[[0xF0], [0x9F, 0x98], [0x80]] :: byte list list"
  note t = carry_buffer_in_bounds[of validate_with_error_position ?fv]
  have "\<exists>st. fragments_loop validate_partial validate_with_error_position init_state (take 2 ?fv)
      = Inr (Next_fragment st) \<and> partial_filled st = 3 \<and> partial_more_needed st = 1"
    by (simp add: utf8_defs)
  then obtain st where l: "fragments_loop validate_partial validate_with_error_position init_state (take 2 ?fv)
      = Inr (Next_fragment st)" and f: "partial_filled st = 3" and m: "partial_more_needed st = 1"
    by blast
  from t l have "partial_filled st + partial_more_needed st \<le> 4" by blast
  with t l f m show ?thesis by blast
qed

end
